theory Spec2Isabelle
  imports Main "HOL-Library.Sublist"
begin

section \<open>Python strings\<close>

text \<open>
  A Python \<^verbatim>\<open>str\<close> is a sequence of Unicode code points. A code point below 256 is
  \<open>Latin1 c\<close>, with \<open>c\<close> the character of that number; the code point \<open>256 + n\<close> is
  \<open>Above n\<close>. Every code point has exactly one such form.
\<close>

datatype codepoint = Latin1 char | Above nat

type_synonym ustring = "codepoint list"

definition cp :: "nat \<Rightarrow> codepoint" where
  \<comment> \<open>the code point with number \<open>n\<close>\<close>
  "cp n = (if n < 256 then Latin1 (char_of n) else Above (n - 256))"

definition ustr :: "string \<Rightarrow> ustring" where
  \<comment> \<open>a string literal of the source\<close>
  "ustr s = map Latin1 s"

text \<open>
  The character tables of Python are written out here for the code points below 256, for
  the whitespace characters and for U+017F (long s). For every other code point they are
  the fields of \<open>unicode_db\<close>, which stands for the rest of Python's Unicode database:
  whether \<open>256 + n\<close> is alphanumeric, its upper case, and the lower case of the character
  at a position of a string (the lowering of a capital sigma looks at its context). The
  theorems hold whatever these fields contain.
\<close>

record unicode_db =
  alnum_above :: "nat \<Rightarrow> bool"
  upper_above :: "nat \<Rightarrow> ustring"
  lower_above :: "ustring \<Rightarrow> nat \<Rightarrow> ustring"

definition NL :: codepoint where
  "NL = Latin1 (CHR 0x0A)"

definition LONG_S :: codepoint where
  "LONG_S = cp 0x17F"

definition latin1_spaces :: string where
  "latin1_spaces =
     [CHR 0x09, CHR 0x0A, CHR 0x0B, CHR 0x0C, CHR 0x0D,
      CHR 0x1C, CHR 0x1D, CHR 0x1E, CHR 0x1F, CHR 0x20, CHR 0x85, CHR 0xA0]"

definition is_space :: "codepoint \<Rightarrow> bool" where
  \<comment> \<open>\<^verbatim>\<open>str.isspace\<close>, the characters \<^verbatim>\<open>str.strip()\<close> removes and the regex class \<^verbatim>\<open>\s\<close>\<close>
  "is_space c =
     (case c of
        Latin1 ch \<Rightarrow> ch \<in> set latin1_spaces
      | Above n \<Rightarrow>
          256 + n \<in> set [0x1680, 0x2000, 0x2001, 0x2002, 0x2003, 0x2004, 0x2005, 0x2006,
                          0x2007, 0x2008, 0x2009, 0x200A, 0x2028, 0x2029, 0x202F, 0x205F,
                          0x3000])"

definition lower_letters :: string where
  "lower_letters = ''abcdefghijklmnopqrstuvwxyz''"

definition upper_letters :: string where
  "upper_letters = ''ABCDEFGHIJKLMNOPQRSTUVWXYZ''"

definition latin1_upper_letters :: string where
  \<comment> \<open>U+00C0 to U+00DE without the multiplication sign U+00D7\<close>
  "latin1_upper_letters =
     [CHR 0xC0, CHR 0xC1, CHR 0xC2, CHR 0xC3, CHR 0xC4, CHR 0xC5, CHR 0xC6, CHR 0xC7, CHR
     0xC8, CHR 0xC9, CHR 0xCA, CHR 0xCB, CHR 0xCC, CHR 0xCD, CHR 0xCE, CHR 0xCF, CHR 0xD0,
     CHR 0xD1, CHR 0xD2, CHR 0xD3, CHR 0xD4, CHR 0xD5, CHR 0xD6, CHR 0xD8, CHR 0xD9, CHR
     0xDA, CHR 0xDB, CHR 0xDC, CHR 0xDD, CHR 0xDE]"

definition latin1_lower_letters :: string where
  \<comment> \<open>U+00E0 to U+00FE without the division sign U+00F7, in the order of their capitals\<close>
  "latin1_lower_letters =
     [CHR 0xE0, CHR 0xE1, CHR 0xE2, CHR 0xE3, CHR 0xE4, CHR 0xE5, CHR 0xE6, CHR 0xE7, CHR
     0xE8, CHR 0xE9, CHR 0xEA, CHR 0xEB, CHR 0xEC, CHR 0xED, CHR 0xEE, CHR 0xEF, CHR 0xF0,
     CHR 0xF1, CHR 0xF2, CHR 0xF3, CHR 0xF4, CHR 0xF5, CHR 0xF6, CHR 0xF8, CHR 0xF9, CHR
     0xFA, CHR 0xFB, CHR 0xFC, CHR 0xFD, CHR 0xFE]"

definition latin1_other_alnum :: string where
  \<comment> \<open>the other alphanumeric characters between U+0080 and U+00FF\<close>
  "latin1_other_alnum =
     [CHR 0xAA, CHR 0xB2, CHR 0xB3, CHR 0xB5, CHR 0xB9, CHR 0xBA, CHR 0xBC, CHR 0xBD, CHR
     0xBE, CHR 0xDF, CHR 0xFF]"

definition is_word :: "unicode_db \<Rightarrow> codepoint \<Rightarrow> bool" where
  \<comment> \<open>the regex class \<^verbatim>\<open>\w\<close> of a \<^verbatim>\<open>str\<close> pattern: \<^verbatim>\<open>str.isalnum\<close>, or the underscore\<close>
  "is_word U c =
     (case c of
        Latin1 ch \<Rightarrow>
          ch \<in> set (lower_letters @ upper_letters @ ''0123456789_'' @
                    latin1_upper_letters @ latin1_lower_letters @ latin1_other_alnum)
      | Above n \<Rightarrow> c = LONG_S \<or> (\<not> is_space c \<and> alnum_above U n))"

definition up :: "unicode_db \<Rightarrow> codepoint \<Rightarrow> ustring" where
  \<comment> \<open>\<^verbatim>\<open>str.upper()\<close> on one character: it may give several characters\<close>
  "up U c =
     (case c of
        Latin1 ch \<Rightarrow>
          (case map_of (zip (lower_letters @ latin1_lower_letters)
                            (upper_letters @ latin1_upper_letters)) ch of
             Some u \<Rightarrow> [Latin1 u]
           | None \<Rightarrow>
               if ch = CHR 0xB5 then [cp 0x39C]
               else if ch = CHR 0xDF then [Latin1 CHR ''S'', Latin1 CHR ''S'']
               else if ch = CHR 0xFF then [cp 0x178]
               else [c])
      | Above n \<Rightarrow>
          if c = LONG_S then [Latin1 CHR ''S'']
          else if is_space c then [c]
          else upper_above U n)"

definition upper :: "unicode_db \<Rightarrow> ustring \<Rightarrow> ustring" where
  \<comment> \<open>\<^verbatim>\<open>str.upper()\<close>: character by character\<close>
  "upper U s = concat (map (up U) s)"

definition lower_latin1 :: "char \<Rightarrow> char" where
  \<comment> \<open>\<^verbatim>\<open>str.lower()\<close> on one character below U+0100\<close>
  "lower_latin1 ch =
     (case map_of (zip (upper_letters @ latin1_upper_letters)
                       (lower_letters @ latin1_lower_letters)) ch of
        Some l \<Rightarrow> l
      | None \<Rightarrow> ch)"

fun lower_from :: "unicode_db \<Rightarrow> ustring \<Rightarrow> nat \<Rightarrow> ustring \<Rightarrow> ustring" where
  \<comment> \<open>the lowering of the characters of \<open>s\<close> from position \<open>i\<close> on\<close>
  "lower_from U s i [] = []"
| "lower_from U s i (c # cs) =
     (case c of
        Latin1 ch \<Rightarrow> [Latin1 (lower_latin1 ch)]
      | Above n \<Rightarrow> if c = LONG_S then [c] else lower_above U s i)
     @ lower_from U s (Suc i) cs"

definition lower :: "unicode_db \<Rightarrow> ustring \<Rightarrow> ustring" where
  \<comment> \<open>\<^verbatim>\<open>str.lower()\<close>\<close>
  "lower U s = lower_from U s 0 s"

definition strip :: "ustring \<Rightarrow> ustring" where
  \<comment> \<open>\<^verbatim>\<open>str.strip()\<close>: whitespace removed at both ends\<close>
  "strip s = rev (dropWhile is_space (rev (dropWhile is_space s)))"

definition startswith :: "ustring \<Rightarrow> ustring \<Rightarrow> bool" where
  \<comment> \<open>\<^verbatim>\<open>s.startswith(p)\<close>\<close>
  "startswith s p = prefix p s"

fun str_in :: "ustring \<Rightarrow> ustring \<Rightarrow> bool" where
  \<comment> \<open>\<^verbatim>\<open>p in s\<close> on strings: \<open>p\<close> occurs in \<open>s\<close> as a contiguous substring\<close>
  "str_in p [] = (p = [])"
| "str_in p (c # cs) = (prefix p (c # cs) \<or> str_in p cs)"

fun split_from :: "ustring \<Rightarrow> ustring \<Rightarrow> ustring \<Rightarrow> ustring list" where
  \<comment> \<open>the scan of \<^verbatim>\<open>str.split(sep)\<close>: \<open>cur\<close> is the piece collected so far, reversed\<close>
  "split_from sep cur [] = [rev cur]"
| "split_from sep cur (c # cs) =
     (if sep \<noteq> [] \<and> prefix sep (c # cs)
      then rev cur # split_from sep [] (drop (length sep) (c # cs))
      else split_from sep (c # cur) cs)"

definition split_str :: "ustring \<Rightarrow> ustring \<Rightarrow> ustring list" where
  \<comment> \<open>\<^verbatim>\<open>s.split(sep)\<close> for a non-empty separator: cut at each occurrence found
      left to right, occurrences not overlapping\<close>
  "split_str s sep = split_from sep [] s"

fun join_str :: "ustring \<Rightarrow> ustring list \<Rightarrow> ustring" where
  \<comment> \<open>\<^verbatim>\<open>sep.join(parts)\<close>\<close>
  "join_str sep [] = []"
| "join_str sep [x] = x"
| "join_str sep (x # y # ys) = x @ sep @ join_str sep (y # ys)"

section \<open>The SQL validator (sql\_validator.py)\<close>

definition ascii_lower :: "char \<Rightarrow> char" where
  "ascii_lower ch = (case map_of (zip upper_letters lower_letters) ch of Some l \<Rightarrow> l | None \<Rightarrow> ch)"

definition ci_eq :: "char \<Rightarrow> codepoint \<Rightarrow> bool" where
  \<comment> \<open>a letter \<open>p\<close> of the literal SELECT, in a pattern compiled with \<^verbatim>\<open>re.IGNORECASE\<close>,
      matches \<open>c\<close>: the two ASCII cases of the letter, and U+017F for S\<close>
  "ci_eq p c =
     (case c of
        Latin1 ch \<Rightarrow> ascii_lower ch = ascii_lower p
      | Above n \<Rightarrow> c = LONG_S \<and> ascii_lower p = CHR ''s'')"

fun ci_prefix :: "string \<Rightarrow> ustring \<Rightarrow> bool" where
  "ci_prefix [] s = True"
| "ci_prefix (p # ps) [] = False"
| "ci_prefix (p # ps) (c # cs) = (ci_eq p c \<and> ci_prefix ps cs)"

fun re_match_select :: "ustring \<Rightarrow> bool" where
  \<comment> \<open>\<^verbatim>\<open>re.match(r'^\s*SELECT', query, re.IGNORECASE)\<close>: at each position either the
      literal matches here, or one more whitespace character is consumed\<close>
  "re_match_select [] = False"
| "re_match_select (c # cs) =
     (ci_prefix ''SELECT'' (c # cs) \<or> (is_space c \<and> re_match_select cs))"

definition word_at :: "unicode_db \<Rightarrow> ustring \<Rightarrow> nat \<Rightarrow> bool" where
  "word_at U s i = (i < length s \<and> is_word U (s ! i))"

definition boundary :: "unicode_db \<Rightarrow> ustring \<Rightarrow> nat \<Rightarrow> bool" where
  \<comment> \<open>the regex assertion \<^verbatim>\<open>\b\<close> at position \<open>p\<close>: exactly one of the characters before
      and after \<open>p\<close> is a word character (the ends of the string count as non-word)\<close>
  "boundary U s p = ((0 < p \<and> word_at U s (p - 1)) \<noteq> word_at U s p)"

definition re_search_word :: "unicode_db \<Rightarrow> ustring \<Rightarrow> ustring \<Rightarrow> bool" where
  \<comment> \<open>\<^verbatim>\<open>re.search(r'\b' + keyword + r'\b', s)\<close> for a literal keyword\<close>
  "re_search_word U keyword s =
     list_ex (\<lambda>i. boundary U s i \<and> prefix keyword (drop i s) \<and> boundary U s (i + length keyword))
             [0..<Suc (length s)]"

definition prohibited_keywords :: "ustring list" where
  "prohibited_keywords = map ustr
     [''INSERT'', ''UPDATE'', ''DELETE'', ''DROP'', ''ALTER'',
      ''ATTACH'', ''DETACH'', ''PRAGMA'', ''TRUNCATE'', ''REPLACE'',
      ''CREATE'', ''GRANT'', ''REVOKE'', ''COMMIT'', ''ROLLBACK'', ''EXEC'', ''EXECUTE'']"

fun first_prohibited :: "unicode_db \<Rightarrow> ustring list \<Rightarrow> ustring \<Rightarrow> ustring option" where
  \<comment> \<open>the \<^verbatim>\<open>for keyword in prohibited_keywords\<close> loop: the first keyword found, if any\<close>
  "first_prohibited U [] upper_query = None"
| "first_prohibited U (keyword # rest) upper_query =
     (if re_search_word U keyword upper_query then Some keyword
      else first_prohibited U rest upper_query)"

definition validate_sql :: "unicode_db \<Rightarrow> ustring \<Rightarrow> bool \<times> ustring" where
  "validate_sql U query0 =
     (if query0 = [] then (False, ustr ''Query is empty.'')
      else let query = strip query0 in
        if query = [] then (False, ustr ''Query is empty.'')
        else if str_in (ustr '';'') (butlast query)
          then (False, ustr ''Multiple statements are not allowed (semicolon detected in middle of query).'')
        else if \<not> re_match_select query
          then (False, ustr ''Only SELECT queries are allowed.'')
        else (case first_prohibited U prohibited_keywords (upper U query) of
                Some keyword \<Rightarrow> (False, ustr ''Prohibited keyword detected: '' @ keyword)
              | None \<Rightarrow>
                  if str_in (ustr ''--'') query \<or> str_in (ustr ''/*'') query
                  then (False, ustr ''SQL comments are not allowed.'')
                  else (True, ustr ''Valid SQL'')))"

section \<open>The completion extractor (app.py, the block after the model call)\<close>

datatype py_error = IndexError

definition item1 :: "'a list \<Rightarrow> py_error + 'a" where
  \<comment> \<open>\<^verbatim>\<open>parts[1]\<close>: raises IndexError on a list shorter than two\<close>
  "item1 xs = (case xs of x # y # rest \<Rightarrow> Inr y | _ \<Rightarrow> Inl IndexError)"

definition item0 :: "'a list \<Rightarrow> py_error + 'a" where
  \<comment> \<open>\<^verbatim>\<open>parts[0]\<close>: raises IndexError on the empty list\<close>
  "item0 xs = (case xs of x # rest \<Rightarrow> Inr x | [] \<Rightarrow> Inl IndexError)"

fun find_from :: "ustring \<Rightarrow> ustring \<Rightarrow> nat \<Rightarrow> int" where
  "find_from p [] i = (if p = [] then int i else - 1)"
| "find_from p (c # cs) i = (if prefix p (c # cs) then int i else find_from p cs (Suc i))"

definition find_str :: "ustring \<Rightarrow> ustring \<Rightarrow> int" where
  \<comment> \<open>\<^verbatim>\<open>s.find(p)\<close>: the lowest index where \<open>p\<close> occurs, \<open>-1\<close> when it does not\<close>
  "find_str s p = find_from p s 0"

definition slice_to :: "ustring \<Rightarrow> int \<Rightarrow> ustring" where
  \<comment> \<open>\<^verbatim>\<open>s[:i]\<close>, a negative \<open>i\<close> counting from the end\<close>
  "slice_to s i = (if i < 0 then take (nat (int (length s) + i)) s else take (nat i) s)"

definition slice_from :: "ustring \<Rightarrow> int \<Rightarrow> ustring" where
  \<comment> \<open>\<^verbatim>\<open>s[i:]\<close>, a negative \<open>i\<close> counting from the end\<close>
  "slice_from s i = (if i < 0 then drop (nat (int (length s) + i)) s else drop (nat i) s)"

definition SEP :: ustring where
  "SEP = ustr ''### SQL START ###''"

definition FENCE :: ustring where
  "FENCE = ustr ''```''"

record completion_result =
  reasoning :: ustring
  sql :: ustring

definition strip_fence :: "unicode_db \<Rightarrow> ustring \<Rightarrow> py_error + ustring" where
  \<comment> \<open>step 1: a leading code fence, then a leading language tag\<close>
  "strip_fence U generated_sql =
     (case (if startswith generated_sql FENCE
            then (case item1 (split_str generated_sql FENCE) of
                    Inl e \<Rightarrow> Inl e | Inr part \<Rightarrow> Inr (strip part))
            else Inr generated_sql) of
        Inl e \<Rightarrow> Inl e
      | Inr g \<Rightarrow> Inr (if startswith (lower U g) (ustr ''sql'') then strip (slice_from g 3) else g))"

definition separate :: "unicode_db \<Rightarrow> ustring \<Rightarrow> py_error + ustring \<times> ustring" where
  \<comment> \<open>steps 1 and 2 of the "robust strategy": the separator, else the first SELECT;
      the result is the pair (reasoning, SQL candidate)\<close>
  "separate U generated_sql =
     (if str_in SEP generated_sql then
        (let parts = split_str generated_sql SEP in
         case item0 parts of
           Inl e \<Rightarrow> Inl e
         | Inr p0 \<Rightarrow> (case item1 parts of
                        Inl e \<Rightarrow> Inl e
                      | Inr p1 \<Rightarrow> Inr (strip p0, strip p1)))
      else if str_in (ustr ''SELECT'') (upper U generated_sql) then
        (let idx = find_str (upper U generated_sql) (ustr ''SELECT'');
             pre_text = strip (slice_to generated_sql idx)
         in Inr (if length pre_text > 5 then pre_text else [], slice_from generated_sql idx))
      else Inr ([], generated_sql))"

definition stop_line :: "ustring \<Rightarrow> bool" where
  "stop_line line =
     (startswith (strip line) (ustr ''Note:'') \<or> startswith (strip line) (ustr ''Explanation:''))"

definition comment_line :: "ustring \<Rightarrow> bool" where
  "comment_line line =
     (startswith (strip line) (ustr ''--'') \<or> startswith (strip line) (ustr ''/*''))"

fun clean_lines :: "ustring list \<Rightarrow> ustring list" where
  \<comment> \<open>the \<^verbatim>\<open>for line in lines\<close> loop: \<^verbatim>\<open>break\<close> at a stop line, skip comment lines\<close>
  "clean_lines [] = []"
| "clean_lines (line # rest) =
     (if stop_line line then []
      else if \<not> comment_line line then line # clean_lines rest
      else clean_lines rest)"

definition cleanup :: "ustring \<Rightarrow> ustring" where
  \<comment> \<open>step 3: the candidate after line-level cleanup\<close>
  "cleanup generated_sql = strip (join_str [NL] (clean_lines (split_str generated_sql [NL])))"

definition semicolon_fix :: "ustring \<Rightarrow> py_error + ustring" where
  \<comment> \<open>step 4: \<^verbatim>\<open>generated_sql.split(";")[0] + ";"\<close> when a semicolon is present\<close>
  "semicolon_fix generated_sql =
     (if str_in (ustr '';'') generated_sql
      then (case item0 (split_str generated_sql (ustr '';'')) of
              Inl e \<Rightarrow> Inl e | Inr p0 \<Rightarrow> Inr (p0 @ ustr '';''))
      else Inr generated_sql)"

definition candidate :: "unicode_db \<Rightarrow> ustring \<Rightarrow> py_error + ustring \<times> ustring" where
  \<comment> \<open>the pair (reasoning, SQL candidate) the extractor holds before line-level cleanup\<close>
  "candidate U content =
     (case strip_fence U (strip content) of
        Inl e \<Rightarrow> Inl e
      | Inr g \<Rightarrow> separate U g)"

definition extract_sql :: "unicode_db \<Rightarrow> ustring \<Rightarrow> py_error + completion_result" where
  \<comment> \<open>from \<^verbatim>\<open>response.content\<close> to the reasoning and the SQL stored in the session\<close>
  "extract_sql U content =
     (case candidate U content of
        Inl e \<Rightarrow> Inl e
      | Inr (r, g) \<Rightarrow>
          (case semicolon_fix (cleanup g) of
             Inl e \<Rightarrow> Inl e
           | Inr final \<Rightarrow> Inr \<lparr>reasoning = r, sql = final\<rparr>))"

section \<open>The query executor (app.py, run\_query)\<close>

record log_entry =
  lquery :: ustring
  lstatus :: ustring
  ltime :: "ustring option"
  lerror :: "ustring option"

text \<open>
  The session: the log list of \<^verbatim>\<open>st.session_state.logs\<close> (newest first), and the trace
  of the queries handed to the database engine, newest first.
\<close>

record session =
  logs :: "log_entry list"
  sent :: "ustring list"

text \<open>
  The database engine is outside the program: \<open>execute\<close> stands for the body of the
  \<^verbatim>\<open>try\<close> block (engine, connection and \<^verbatim>\<open>pd.read_sql\<close>), giving the data frame or the
  text of the exception; \<open>elapsed\<close> is the formatted duration.
\<close>

record 'df engine_env =
  execute :: "ustring \<Rightarrow> ustring + 'df"
  elapsed :: ustring

definition run_query ::
  "unicode_db \<Rightarrow> 'df engine_env \<Rightarrow> ustring \<Rightarrow> session \<Rightarrow>
     ('df option \<times> ustring option) \<times> session" where
  "run_query U env query st =
     (case validate_sql U query of (is_valid, msg) \<Rightarrow>
        if \<not> is_valid then ((None, Some (ustr ''Validation Error: '' @ msg)), st)
        else (case execute env query of
                Inr df \<Rightarrow>
                  ((Some df, None),
                   st\<lparr>logs := \<lparr>lquery = query, lstatus = ustr ''Success'',
                                 ltime = Some (elapsed env), lerror = None\<rparr> # logs st,
                      sent := query # sent st\<rparr>)
              | Inl e \<Rightarrow>
                  ((None, Some (ustr ''Execution Error: '' @ e)),
                   st\<lparr>logs := \<lparr>lquery = query, lstatus = ustr ''Error'',
                                 ltime = None, lerror = Some e\<rparr> # logs st,
                      sent := query # sent st\<rparr>)))"

section \<open>The context store (chroma\_manager.py)\<close>

record snippet =
  sid :: ustring
  document :: ustring
  metadata :: "(ustring \<times> ustring) list"

type_synonym collection = "snippet list"

datatype store_error = DeleteError

definition matches :: "ustring \<Rightarrow> ustring \<Rightarrow> snippet \<Rightarrow> bool" where
  \<comment> \<open>the filter \<^verbatim>\<open>where={key: value}\<close> on the metadata\<close>
  "matches key v s = (map_of (metadata s) key = Some v)"

definition coll_delete ::
  "bool \<Rightarrow> ustring \<Rightarrow> ustring \<Rightarrow> collection \<Rightarrow> store_error + collection" where
  \<comment> \<open>Modelled from the spec: the vector store's \<^verbatim>\<open>delete(where=filter)\<close> removes the
      snippets the filter selects. The store is a library outside the repository; whether
      it raises when the filter selects nothing is the flag \<open>raises_on_none\<close>.\<close>
  "coll_delete raises_on_none key v coll =
     (if raises_on_none \<and> \<not> list_ex (matches key v) coll then Inl DeleteError
      else Inr (filter (\<lambda>s. \<not> matches key v s) coll))"

definition coll_add :: "snippet list \<Rightarrow> collection \<Rightarrow> collection" where
  \<comment> \<open>Modelled from the spec: the vector store's \<^verbatim>\<open>insert(id, text, metadata)\<close>, for a batch.\<close>
  "coll_add new coll = coll @ new"

definition coll_query ::
  "(ustring \<Rightarrow> ustring \<Rightarrow> nat) \<Rightarrow> ustring \<Rightarrow> nat \<Rightarrow> collection \<Rightarrow> snippet list" where
  \<comment> \<open>Modelled from the spec: the vector store's \<^verbatim>\<open>query(text, k)\<close>, the \<open>k\<close> snippets
      nearest to the text; \<open>dist\<close> stands for the embedding distance.\<close>
  "coll_query dist text k coll = take k (sort_key (\<lambda>s. dist text (document s)) coll)"

fun digits :: "nat \<Rightarrow> ustring" where
  \<comment> \<open>the decimal digits of \<open>n\<close>, as \<^verbatim>\<open>str(n)\<close> and an f-string print them\<close>
  "digits n =
     (if n < 10 then [Latin1 (''0123456789'' ! n)]
      else digits (n div 10) @ [Latin1 (''0123456789'' ! (n mod 10))])"

declare digits.simps [simp del]

definition TABLE :: ustring where
  "TABLE = ustr ''Table: ''"

fun schema_entries :: "nat \<Rightarrow> ustring list \<Rightarrow> snippet list" where
  \<comment> \<open>the \<^verbatim>\<open>for i, chunk in enumerate(chunks)\<close> loop, from index \<open>i\<close> on\<close>
  "schema_entries i [] = []"
| "schema_entries i (chunk # rest) =
     (if strip chunk = [] then schema_entries (Suc i) rest
      else (let table_name = strip (hd (split_str chunk [NL]))
            in \<lparr>sid = ustr ''schema_'' @ table_name @ ustr ''_'' @ digits i,
                document = TABLE @ chunk,
                metadata = [(ustr ''type'', ustr ''schema''), (ustr ''table'', table_name)]\<rparr>)
           # schema_entries (Suc i) rest)"

definition index_schema :: "bool \<Rightarrow> ustring \<Rightarrow> collection \<Rightarrow> collection" where
  "index_schema raises_on_none schema_text coll =
     (let coll1 = (case coll_delete raises_on_none (ustr ''type'') (ustr ''schema'') coll of
                     Inl e \<Rightarrow> coll
                   | Inr c \<Rightarrow> c);
          entries = schema_entries 0 (split_str schema_text TABLE)
      in if entries \<noteq> [] then coll_add entries coll1 else coll1)"

definition get_relevant_context ::
  "(ustring \<Rightarrow> ustring \<Rightarrow> nat) \<Rightarrow> collection \<Rightarrow> ustring \<Rightarrow> nat \<Rightarrow> ustring list" where
  "get_relevant_context dist coll query n_results = map document (coll_query dist query n_results coll)"

section \<open>The properties in the words of the specification\<close>

definition any_case :: "string \<Rightarrow> ustring \<Rightarrow> bool" where
  \<comment> \<open>\<open>w\<close> is the ASCII word \<open>p\<close>, each letter in any case\<close>
  "any_case p w = list_all2 ci_eq p w"

definition begins_with_select :: "ustring \<Rightarrow> bool" where
  \<comment> \<open>SELECT in any letter case, possibly after whitespace\<close>
  "begins_with_select t =
     (\<exists>ws w rest. t = ws @ w @ rest \<and> (\<forall>c\<in>set ws. is_space c) \<and> any_case ''SELECT'' w)"



definition inner_semicolon :: "ustring \<Rightarrow> bool" where
  \<comment> \<open>a semicolon somewhere before the final character\<close>
  "inner_semicolon t = (\<exists>i. Suc i < length t \<and> t ! i = Latin1 CHR '';'')"


section \<open>Characters, substrings and trimming\<close>

lemma re_search_word_code [code]:
  "re_search_word U keyword s =
     list_ex (\<lambda>i. if prefix keyword (drop i s)
                   then boundary U s i \<and> boundary U s (i + length keyword) else False)
             [0..<Suc (length s)]"
  unfolding re_search_word_def by (rule arg_cong2[where f = list_ex]) auto

lemma LONG_S_Above: "LONG_S = Above 127"
  by (simp add: LONG_S_def cp_def)






lemma upper_append: "upper U (a @ b) = upper U a @ upper U b"
  by (simp add: upper_def)


lemma ci_prefix_iff: "ci_prefix p s \<longleftrightarrow> (\<exists>w rest. s = w @ rest \<and> any_case p w)"
proof (induction p s rule: ci_prefix.induct)
  case (1 s)
  show ?case by (simp add: any_case_def)
next
  case (2 p ps)
  show ?case by (simp add: any_case_def)
next
  case (3 p ps c cs)
  show ?case
  proof
    assume "ci_prefix (p # ps) (c # cs)"
    with 3 obtain w rest where "cs = w @ rest" "any_case ps w" "ci_eq p c"
      by auto
    then have "c # cs = (c # w) @ rest \<and> any_case (p # ps) (c # w)"
      by (simp add: any_case_def)
    then show "\<exists>w rest. c # cs = w @ rest \<and> any_case (p # ps) w" by blast
  next
    assume "\<exists>w rest. c # cs = w @ rest \<and> any_case (p # ps) w"
    then obtain w rest where w: "c # cs = w @ rest" "any_case (p # ps) w" by blast
    then obtain w' where w': "w = c # w'" by (cases w) (auto simp: any_case_def)
    with w have "cs = w' @ rest \<and> any_case ps w'" "ci_eq p c" by (auto simp: any_case_def)
    with 3 show "ci_prefix (p # ps) (c # cs)" by auto
  qed
qed

lemma re_match_select_iff: "re_match_select t \<longleftrightarrow> begins_with_select t"
proof (induction t)
  case Nil
  show ?case by (simp add: begins_with_select_def any_case_def)
next
  case (Cons c cs)
  note IH = Cons.IH
  show ?case
  proof
    assume "re_match_select (c # cs)"
    then consider "ci_prefix ''SELECT'' (c # cs)" | "is_space c" "re_match_select cs"
      unfolding re_match_select.simps by blast
    then show "begins_with_select (c # cs)"
    proof cases
      case 1
      then obtain w rest where "c # cs = w @ rest" "any_case ''SELECT'' w"
        unfolding ci_prefix_iff by blast
      then have "c # cs = [] @ w @ rest \<and> (\<forall>c\<in>set []. is_space c) \<and> any_case ''SELECT'' w"
        by simp
      then show ?thesis unfolding begins_with_select_def by blast
    next
      case 2
      with IH obtain ws w rest where "cs = ws @ w @ rest" "\<forall>c\<in>set ws. is_space c"
          "any_case ''SELECT'' w"
        unfolding begins_with_select_def by blast
      with 2 have "c # cs = (c # ws) @ w @ rest \<and> (\<forall>c\<in>set (c # ws). is_space c) \<and>
          any_case ''SELECT'' w"
        by simp
      then show ?thesis unfolding begins_with_select_def by blast
    qed
  next
    assume "begins_with_select (c # cs)"
    then obtain ws w rest where d: "c # cs = ws @ w @ rest" "\<forall>c\<in>set ws. is_space c"
        "any_case ''SELECT'' w"
      unfolding begins_with_select_def by blast
    show "re_match_select (c # cs)"
    proof (cases ws)
      case Nil
      with d have "c # cs = w @ rest \<and> any_case ''SELECT'' w" by simp
      then have "ci_prefix ''SELECT'' (c # cs)"
        unfolding ci_prefix_iff by blast
      then show ?thesis unfolding re_match_select.simps by blast
    next
      case (Cons x xs)
      with d have x: "x = c" "cs = xs @ w @ rest" "is_space c" "\<forall>c\<in>set xs. is_space c" by auto
      with d(3) have "cs = xs @ w @ rest \<and> (\<forall>c\<in>set xs. is_space c) \<and> any_case ''SELECT'' w"
        by simp
      then have "begins_with_select cs" unfolding begins_with_select_def by blast
      with IH x(3) show ?thesis unfolding re_match_select.simps by blast
    qed
  qed
qed






lemma str_in_sublist: "str_in p s = sublist p s"
  by (induction s) (auto simp: sublist_Cons_right)

lemma str_in_single: "str_in [c] s = (c \<in> set s)"
  by (induction s) auto

lemma strip_Nil [simp]: "strip [] = []"
  by (simp add: strip_def)

lemma inner_semicolon_iff: "str_in (ustr '';'') (butlast t) = inner_semicolon t"
proof -
  let ?c = "Latin1 CHR '';''"
  have len: "i < length (butlast t) \<longleftrightarrow> Suc i < length t" for i by auto
  have "?c \<in> set (butlast t) \<longleftrightarrow> (\<exists>i<length (butlast t). butlast t ! i = ?c)"
    by (simp only: in_set_conv_nth)
  also have "\<dots> \<longleftrightarrow> (\<exists>i<length (butlast t). t ! i = ?c)"
    by (metis nth_butlast)
  also have "\<dots> \<longleftrightarrow> (\<exists>i. Suc i < length t \<and> t ! i = ?c)"
    by (simp only: len)
  finally show ?thesis by (simp add: str_in_single inner_semicolon_def ustr_def)
qed














lemma validate_sql_valid_iff:
  "fst (validate_sql U query) \<longleftrightarrow>
     strip query \<noteq> [] \<and> \<not> str_in (ustr '';'') (butlast (strip query)) \<and>
     re_match_select (strip query) \<and>
     first_prohibited U prohibited_keywords (upper U (strip query)) = None \<and>
     \<not> str_in (ustr ''--'') (strip query) \<and> \<not> str_in (ustr ''/*'') (strip query)"
  by (cases "query = []") (auto simp: validate_sql_def Let_def split: option.splits)


section \<open>The validator's verdict\<close>



lemma validate_sql_multi_iff:
  "validate_sql U query =
     (False, ustr ''Multiple statements are not allowed (semicolon detected in middle of query).'')
     \<longleftrightarrow> str_in (ustr '';'') (butlast (strip query))"
  by (cases "query = []") (auto simp: validate_sql_def Let_def ustr_def split: option.splits)

text \<open>
  C2, as the specification words it: every query with a semicolon before its final
  character is rejected for multiple statements. The validator trims the query first,
  so a semicolon followed only by whitespace is the final character of what it checks:
  \<^verbatim>\<open>"SELECT 1; "\<close> has a semicolon before its final character and is valid.
\<close>

theorem validate_sql_inner_semicolon_counterexample:
  "\<forall>U. inner_semicolon (ustr ''SELECT 1; '') \<and>
       validate_sql U (ustr ''SELECT 1; '') = (True, ustr ''Valid SQL'')"
proof
  fix U
  have "Suc 8 < length (ustr ''SELECT 1; '') \<and> ustr ''SELECT 1; '' ! 8 = Latin1 CHR '';''"
    by (simp add: ustr_def)
  then have "inner_semicolon (ustr ''SELECT 1; '')" unfolding inner_semicolon_def by blast
  moreover have "validate_sql U (ustr ''SELECT 1; '') = (True, ustr ''Valid SQL'')" by code_simp
  ultimately show "inner_semicolon (ustr ''SELECT 1; '') \<and>
       validate_sql U (ustr ''SELECT 1; '') = (True, ustr ''Valid SQL'')"
    by blast
qed

text \<open>
  C2, amended: the multiple-statements verdict is given exactly to the queries whose
  trimmed form has a semicolon before its final character; trimming removes every
  character Python counts as whitespace, the no-break space among them.
\<close>

theorem validate_sql_inner_semicolon:
  "(inner_semicolon (strip query) \<longleftrightarrow>
    validate_sql U query =
      (False, ustr ''Multiple statements are not allowed (semicolon detected in middle of query).'')) \<and>
   validate_sql U (ustr ''SELECT 1;'' @ [cp 0xA0]) = (True, ustr ''Valid SQL'')"
proof
  show "inner_semicolon (strip query) \<longleftrightarrow>
    validate_sql U query =
      (False, ustr ''Multiple statements are not allowed (semicolon detected in middle of query).'')"
    by (simp only: validate_sql_multi_iff inner_semicolon_iff)
  show "validate_sql U (ustr ''SELECT 1;'' @ [cp 0xA0]) = (True, ustr ''Valid SQL'')"
    by code_simp
qed

theorem validate_sql_inner_semicolon_witness:
  "\<forall>U. inner_semicolon (strip (ustr ''SELECT 1; DROP TABLE t'')) \<and>
       validate_sql U (ustr ''SELECT 1; DROP TABLE t'') =
         (False, ustr ''Multiple statements are not allowed (semicolon detected in middle of query).'')"
proof
  fix U
  have "validate_sql U (ustr ''SELECT 1; DROP TABLE t'') =
     (False, ustr ''Multiple statements are not allowed (semicolon detected in middle of query).'')"
    by code_simp
  with validate_sql_inner_semicolon[of "ustr ''SELECT 1; DROP TABLE t''" U]
  show "inner_semicolon (strip (ustr ''SELECT 1; DROP TABLE t'')) \<and>
       validate_sql U (ustr ''SELECT 1; DROP TABLE t'') =
         (False, ustr ''Multiple statements are not allowed (semicolon detected in middle of query).'')"
    by blast
qed






lemma upper_Nil [simp]: "upper U [] = []"
  by (simp add: upper_def)





section \<open>The query executor\<close>

lemma run_query_invalid:
  "validate_sql U query = (False, reason) \<Longrightarrow>
     run_query U env query st = ((None, Some (ustr ''Validation Error: '' @ reason)), st)"
  by (simp add: run_query_def)

lemma run_query_valid:
  "validate_sql U query = (True, msg) \<Longrightarrow>
     run_query U env query st =
       (case execute env query of
          Inr df \<Rightarrow>
            ((Some df, None),
             st\<lparr>logs := \<lparr>lquery = query, lstatus = ustr ''Success'',
                           ltime = Some (elapsed env), lerror = None\<rparr> # logs st,
                sent := query # sent st\<rparr>)
        | Inl e \<Rightarrow>
            ((None, Some (ustr ''Execution Error: '' @ e)),
             st\<lparr>logs := \<lparr>lquery = query, lstatus = ustr ''Error'',
                           ltime = None, lerror = Some e\<rparr> # logs st,
                sent := query # sent st\<rparr>))"
  by (simp add: run_query_def)

text \<open>
  C4. When \<^verbatim>\<open>validate_sql\<close> answers \<^verbatim>\<open>(False, reason)\<close>, \<^verbatim>\<open>run_query\<close> returns no
  result and the message \<^verbatim>\<open>Validation Error:\<close> followed by the reason, and hands nothing to
  the engine. Whenever the trace of queries handed to the engine grows, the query was
  approved by the validator, and it is that query which was handed over.
\<close>

theorem run_query_rejects_unvalidated:
  "(validate_sql U query = (False, reason) \<longrightarrow>
      fst (run_query U env query st) = (None, Some (ustr ''Validation Error: '' @ reason)) \<and>
      sublist reason (the (snd (fst (run_query U env query st)))) \<and>
      sent (snd (run_query U env query st)) = sent st) \<and>
   (sent (snd (run_query U env query st)) \<noteq> sent st \<longrightarrow>
      fst (validate_sql U query) \<and> sent (snd (run_query U env query st)) = query # sent st)"
proof (intro conjI impI)
  assume "validate_sql U query = (False, reason)"
  then have r: "run_query U env query st =
      ((None, Some (ustr ''Validation Error: '' @ reason)), st)"
    by (rule run_query_invalid)
  show "fst (run_query U env query st) = (None, Some (ustr ''Validation Error: '' @ reason))"
    by (simp add: r)
  show "sublist reason (the (snd (fst (run_query U env query st))))"
    unfolding r fst_conv snd_conv option.sel by (rule sublist_append_leftI)
  show "sent (snd (run_query U env query st)) = sent st"
    by (simp add: r)
next
  assume ch: "sent (snd (run_query U env query st)) \<noteq> sent st"
  obtain ok msg where v: "validate_sql U query = (ok, msg)" by (cases "validate_sql U query")
  have ok: ok
  proof (rule ccontr)
    assume "\<not> ok"
    with v have "run_query U env query st =
        ((None, Some (ustr ''Validation Error: '' @ msg)), st)"
      by (simp add: run_query_invalid)
    with ch show False by simp
  qed
  with v show "fst (validate_sql U query)" by simp
  from v ok show "sent (snd (run_query U env query st)) = query # sent st"
    by (simp add: run_query_valid split: sum.split)
qed

theorem run_query_rejects_unvalidated_witness:
  "\<forall>U. validate_sql U (ustr ''DROP TABLE t'') = (False, ustr ''Only SELECT queries are allowed.'') \<and>
       run_query U \<lparr>execute = (\<lambda>q. Inr (length q)), elapsed = ustr ''0.0010s''\<rparr>
           (ustr ''DROP TABLE t'') \<lparr>logs = [], sent = []\<rparr> =
         ((None, Some (ustr ''Validation Error: Only SELECT queries are allowed.'')),
          \<lparr>logs = [], sent = []\<rparr>) \<and>
       sent (snd (run_query U \<lparr>execute = (\<lambda>q. Inr (length q)), elapsed = ustr ''0.0010s''\<rparr>
           (ustr ''select 1'') \<lparr>logs = [], sent = []\<rparr>)) = [ustr ''select 1''] \<and>
       fst (validate_sql U (ustr ''select 1''))"
proof
  fix U
  let ?env = "\<lparr>execute = (\<lambda>q. Inr (length q)), elapsed = ustr ''0.0010s''\<rparr>"
  let ?st = "\<lparr>logs = [], sent = []\<rparr>"
  let ?d = "ustr ''DROP TABLE t''"
  let ?s = "ustr ''select 1''"
  have v: "validate_sql U ?d = (False, ustr ''Only SELECT queries are allowed.'')"
    by code_simp
  have v1: "validate_sql U ?s = (True, ustr ''Valid SQL'')" by code_simp
  have s: "sent (snd (run_query U ?env ?s ?st)) = [?s]"
    by (simp add: run_query_valid[OF v1])
  then have ch: "sent (snd (run_query U ?env ?s ?st)) \<noteq> sent ?st" by simp
  have "run_query U ?env ?d ?st =
     ((None, Some (ustr ''Validation Error: Only SELECT queries are allowed.'')), ?st)"
    using v by (simp add: run_query_invalid ustr_def)
  moreover from run_query_rejects_unvalidated[of U ?s "[]" ?env ?st] ch
  have "fst (validate_sql U ?s)" by blast
  ultimately show "validate_sql U ?d = (False, ustr ''Only SELECT queries are allowed.'') \<and>
       run_query U ?env ?d ?st =
         ((None, Some (ustr ''Validation Error: Only SELECT queries are allowed.'')), ?st) \<and>
       sent (snd (run_query U ?env ?s ?st)) = [?s] \<and>
       fst (validate_sql U ?s)"
    using v s by blast
qed

text \<open>
  C10. A query the validator rejects leaves the session log as it was. The log changes
  only by one entry put in front, for the query handed to the engine, with status
  \<^verbatim>\<open>Success\<close> or \<^verbatim>\<open>Error\<close>.
\<close>

theorem run_query_log_frame:
  "(\<not> fst (validate_sql U query) \<longrightarrow> logs (snd (run_query U env query st)) = logs st) \<and>
   (logs (snd (run_query U env query st)) \<noteq> logs st \<longrightarrow>
      (\<exists>entry. logs (snd (run_query U env query st)) = entry # logs st \<and>
         lquery entry = query \<and>
         (lstatus entry = ustr ''Success'' \<or> lstatus entry = ustr ''Error'') \<and>
         sent (snd (run_query U env query st)) = query # sent st))"
proof -
  obtain ok msg where v: "validate_sql U query = (ok, msg)" by (cases "validate_sql U query")
  show ?thesis
  proof (cases ok)
    case False
    with v have "run_query U env query st =
        ((None, Some (ustr ''Validation Error: '' @ msg)), st)"
      by (simp add: run_query_invalid)
    with v False show ?thesis by simp
  next
    case True
    with v have r: "validate_sql U query = (True, msg)" by simp
    show ?thesis
      by (cases "execute env query") (simp_all add: run_query_valid[OF r] r)
  qed
qed

theorem run_query_log_frame_witness:
  "\<forall>U. \<not> fst (validate_sql U (ustr ''SELECT 1 -- comment'')) \<and>
       logs (snd (run_query U
           \<lparr>execute = (\<lambda>q. Inl (ustr ''no such table'') :: ustring + nat), elapsed = ustr ''0.0010s''\<rparr>
           (ustr ''SELECT 1 -- comment'') \<lparr>logs = [], sent = []\<rparr>)) = [] \<and>
       logs (snd (run_query U
           \<lparr>execute = (\<lambda>q. Inl (ustr ''no such table'') :: ustring + nat), elapsed = ustr ''0.0010s''\<rparr>
           (ustr ''SELECT * FROM t;'') \<lparr>logs = [], sent = []\<rparr>)) =
         [\<lparr>lquery = ustr ''SELECT * FROM t;'', lstatus = ustr ''Error'', ltime = None,
           lerror = Some (ustr ''no such table'')\<rparr>]"
proof
  fix U
  let ?env = "\<lparr>execute = (\<lambda>q. Inl (ustr ''no such table'') :: ustring + nat),
               elapsed = ustr ''0.0010s''\<rparr>"
  let ?st = "\<lparr>logs = [], sent = []\<rparr>"
  have v: "validate_sql U (ustr ''SELECT 1 -- comment'') =
      (False, ustr ''SQL comments are not allowed.'')"
    by code_simp
  then have n: "\<not> fst (validate_sql U (ustr ''SELECT 1 -- comment''))" by simp
  with run_query_log_frame[of U "ustr ''SELECT 1 -- comment''" ?env ?st]
  have a: "logs (snd (run_query U ?env (ustr ''SELECT 1 -- comment'') ?st)) = []" by simp
  have v1: "validate_sql U (ustr ''SELECT * FROM t;'') = (True, ustr ''Valid SQL'')" by code_simp
  have b: "logs (snd (run_query U ?env (ustr ''SELECT * FROM t;'') ?st)) =
     [\<lparr>lquery = ustr ''SELECT * FROM t;'', lstatus = ustr ''Error'', ltime = None,
       lerror = Some (ustr ''no such table'')\<rparr>]"
    by (simp add: run_query_valid[OF v1])
  from n a b show "\<not> fst (validate_sql U (ustr ''SELECT 1 -- comment'')) \<and>
       logs (snd (run_query U ?env (ustr ''SELECT 1 -- comment'') ?st)) = [] \<and>
       logs (snd (run_query U ?env (ustr ''SELECT * FROM t;'') ?st)) =
         [\<lparr>lquery = ustr ''SELECT * FROM t;'', lstatus = ustr ''Error'', ltime = None,
           lerror = Some (ustr ''no such table'')\<rparr>]"
    by blast
qed

section \<open>The context store\<close>

lemma schema_entries_are_schema:
  "s \<in> set (schema_entries i chunks) \<Longrightarrow> matches (ustr ''type'') (ustr ''schema'') s"
  by (induction i chunks rule: schema_entries.induct)
     (auto simp: matches_def Let_def split: if_splits)

lemma filter_schema_entries:
  "filter (matches (ustr ''type'') (ustr ''schema'')) (schema_entries i chunks) =
     schema_entries i chunks"
  by (simp add: schema_entries_are_schema)

lemma type_literals: "ustr ''logic'' \<noteq> ustr ''schema''"
  by (simp add: ustr_def)

lemma schema_entries_not_logic:
  "s \<in> set (schema_entries i chunks) \<Longrightarrow> \<not> matches (ustr ''type'') (ustr ''logic'') s"
  by (induction i chunks rule: schema_entries.induct)
     (auto simp: matches_def Let_def type_literals[symmetric] split: if_splits)

lemma logic_not_schema:
  "matches (ustr ''type'') (ustr ''logic'') s \<Longrightarrow> \<not> matches (ustr ''type'') (ustr ''schema'') s"
  by (simp add: matches_def type_literals)

lemma delete_step:
  "(case coll_delete r (ustr ''type'') (ustr ''schema'') coll of Inl e \<Rightarrow> coll | Inr c \<Rightarrow> c) =
     filter (\<lambda>s. \<not> matches (ustr ''type'') (ustr ''schema'') s) coll"
  by (auto simp: coll_delete_def list_ex_iff filter_id_conv)

lemma index_schema_eq:
  "index_schema r t coll =
     filter (\<lambda>s. \<not> matches (ustr ''type'') (ustr ''schema'') s) coll @
     schema_entries 0 (split_str t TABLE)"
  unfolding index_schema_def Let_def delete_step coll_add_def by simp

lemma retrieved_from_store:
  "set (get_relevant_context dist coll q n) \<subseteq> document ` set coll"
proof -
  have "set (coll_query dist q n coll) \<subseteq> set coll"
    unfolding coll_query_def using set_take_subset[of n "sort_key (\<lambda>s. dist q (document s)) coll"]
    by simp
  then show ?thesis unfolding get_relevant_context_def by auto
qed

text \<open>
  C6. \<^verbatim>\<open>index_schema\<close> removes every snippet whose type is \<^verbatim>\<open>schema\<close> and then appends the
  chunks of the new schema text. After two calls the snippets of type \<^verbatim>\<open>schema\<close> in the
  store are exactly the chunks of the second text, the snippets of type \<^verbatim>\<open>logic\<close> are the
  ones that were there before, and whatever a retrieval returns is the document of a
  snippet that was not of type \<^verbatim>\<open>schema\<close> or of a chunk of the second text.
\<close>

theorem index_schema_replaces_schema:
  "index_schema r t coll =
     filter (\<lambda>s. \<not> matches (ustr ''type'') (ustr ''schema'') s) coll @
     schema_entries 0 (split_str t TABLE) \<and>
   filter (matches (ustr ''type'') (ustr ''schema'')) (index_schema r2 t2 (index_schema r1 t1 coll)) =
     schema_entries 0 (split_str t2 TABLE) \<and>
   filter (matches (ustr ''type'') (ustr ''logic'')) (index_schema r t coll) =
     filter (matches (ustr ''type'') (ustr ''logic'')) coll \<and>
   set (get_relevant_context dist (index_schema r2 t2 (index_schema r1 t1 coll)) q n) \<subseteq>
     document ` (set (filter (\<lambda>s. \<not> matches (ustr ''type'') (ustr ''schema'') s) coll) \<union>
                 set (schema_entries 0 (split_str t2 TABLE)))"
proof (intro conjI)
  let ?S = "matches (ustr ''type'') (ustr ''schema'')"
  let ?L = "matches (ustr ''type'') (ustr ''logic'')"
  show "index_schema r t coll =
     filter (\<lambda>s. \<not> ?S s) coll @ schema_entries 0 (split_str t TABLE)"
    by (rule index_schema_eq)
  show "filter ?S (index_schema r2 t2 (index_schema r1 t1 coll)) =
     schema_entries 0 (split_str t2 TABLE)"
    by (simp add: index_schema_eq filter_schema_entries)
  have "filter ?L (schema_entries 0 (split_str t TABLE)) = []"
    by (simp add: schema_entries_not_logic)
  moreover have "filter ?L (filter (\<lambda>s. \<not> ?S s) coll) = filter ?L coll"
    by (induction coll) (auto simp: logic_not_schema)
  ultimately show "filter ?L (index_schema r t coll) = filter ?L coll"
    by (simp add: index_schema_eq)
  have "set (index_schema r2 t2 (index_schema r1 t1 coll)) =
      set (filter (\<lambda>s. \<not> ?S s) coll) \<union> set (schema_entries 0 (split_str t2 TABLE))"
    by (auto simp: index_schema_eq dest: schema_entries_are_schema)
  with retrieved_from_store[of dist "index_schema r2 t2 (index_schema r1 t1 coll)" q n]
  show "set (get_relevant_context dist (index_schema r2 t2 (index_schema r1 t1 coll)) q n) \<subseteq>
     document ` (set (filter (\<lambda>s. \<not> ?S s) coll) \<union>
                 set (schema_entries 0 (split_str t2 TABLE)))"
    by simp
qed

theorem index_schema_replaces_schema_witness:
  "filter (matches (ustr ''type'') (ustr ''schema''))
     (index_schema True (ustr ''Table: b\<newline>  y TEXT'')
        (index_schema False (ustr ''Table: a\<newline>  x INT'')
           [\<lparr>sid = ustr ''logic_0'', document = ustr ''To count items, use COUNT(column).'',
              metadata = [(ustr ''type'', ustr ''logic''), (ustr ''topic'', ustr ''generic_sql'')]\<rparr>])) =
     [\<lparr>sid = ustr ''schema_b_1'', document = ustr ''Table: b\<newline>  y TEXT'',
        metadata = [(ustr ''type'', ustr ''schema''), (ustr ''table'', ustr ''b'')]\<rparr>] \<and>
   get_relevant_context (\<lambda>q d. length d)
     (index_schema True (ustr ''Table: b\<newline>  y TEXT'')
        (index_schema False (ustr ''Table: a\<newline>  x INT'')
           [\<lparr>sid = ustr ''logic_0'', document = ustr ''To count items, use COUNT(column).'',
              metadata = [(ustr ''type'', ustr ''logic''), (ustr ''topic'', ustr ''generic_sql'')]\<rparr>]))
     (ustr ''how many items'') 3 =
     [ustr ''Table: b\<newline>  y TEXT'', ustr ''To count items, use COUNT(column).''] \<and>
   index_schema True (ustr ''Table: '' @ [cp 0xA0]) [] = []"
proof -
  let ?l = "[\<lparr>sid = ustr ''logic_0'', document = ustr ''To count items, use COUNT(column).'',
              metadata = [(ustr ''type'', ustr ''logic''), (ustr ''topic'', ustr ''generic_sql'')]\<rparr>]"
  let ?a = "ustr ''Table: a\<newline>  x INT''"
  let ?b = "ustr ''Table: b\<newline>  y TEXT''"
  have e: "schema_entries 0 (split_str ?b TABLE) =
     [\<lparr>sid = ustr ''schema_b_1'', document = ?b,
        metadata = [(ustr ''type'', ustr ''schema''), (ustr ''table'', ustr ''b'')]\<rparr>]"
    by code_simp
  from index_schema_replaces_schema[of True ?b ?l True ?b False ?a]
  have "filter (matches (ustr ''type'') (ustr ''schema''))
     (index_schema True ?b (index_schema False ?a ?l)) =
     schema_entries 0 (split_str ?b TABLE)"
    by blast
  then have a: "filter (matches (ustr ''type'') (ustr ''schema''))
     (index_schema True ?b (index_schema False ?a ?l)) =
     [\<lparr>sid = ustr ''schema_b_1'', document = ?b,
        metadata = [(ustr ''type'', ustr ''schema''), (ustr ''table'', ustr ''b'')]\<rparr>]"
    by (simp only: e)
  have b: "get_relevant_context (\<lambda>q d. length d)
     (index_schema True ?b (index_schema False ?a ?l)) (ustr ''how many items'') 3 =
     [?b, ustr ''To count items, use COUNT(column).'']"
    by code_simp
  have c: "index_schema True (ustr ''Table: '' @ [cp 0xA0]) [] = []" by code_simp
  from a b c show ?thesis by blast
qed

section \<open>The completion extractor\<close>




lemma split_from_not_Nil: "split_from sep cur s \<noteq> []"
  by (induction sep cur s rule: split_from.induct) auto

lemma split_from_two:
  "sep \<noteq> [] \<Longrightarrow> str_in sep s \<Longrightarrow> 2 \<le> length (split_from sep cur s)"
proof (induction sep cur s rule: split_from.induct)
  case (1 sep cur)
  then show ?case by simp
next
  case (2 sep cur c cs)
  show ?case
  proof (cases "prefix sep (c # cs)")
    case True
    have "split_from sep [] (drop (length sep) (c # cs)) \<noteq> []" by (rule split_from_not_Nil)
    then have "1 \<le> length (split_from sep [] (drop (length sep) (c # cs)))"
      by (cases "split_from sep [] (drop (length sep) (c # cs))") auto
    with True "2.prems"(1) show ?thesis by simp
  next
    case False
    with "2.prems" have "str_in sep cs" by simp
    with "2.IH"(2) False "2.prems"(1) show ?thesis by simp
  qed
qed

lemma item0_split: "item0 (split_str s sep) = Inr (hd (split_str s sep))"
  using split_from_not_Nil[of sep "[]" s]
  by (cases "split_from sep [] s") (auto simp: item0_def split_str_def)

lemma item1_split:
  assumes "sep \<noteq> []" "str_in sep s"
  shows "\<exists>y. item1 (split_str s sep) = Inr y"
proof -
  from split_from_two[OF assms] have "2 \<le> length (split_str s sep)"
    by (simp add: split_str_def)
  then obtain x y rest where "split_str s sep = x # y # rest"
    by (cases "split_str s sep"; cases "tl (split_str s sep)") auto
  then show ?thesis by (simp add: item1_def)
qed

lemma startswith_str_in: "startswith s p \<Longrightarrow> str_in p s"
  unfolding startswith_def str_in_sublist by (rule prefix_imp_sublist)

lemma strip_fence_total: "\<exists>g. strip_fence U s = Inr g"
proof (cases "startswith s FENCE")
  case True
  then have "str_in FENCE s" by (rule startswith_str_in)
  moreover have "FENCE \<noteq> []" by (simp add: FENCE_def ustr_def)
  ultimately obtain y where "item1 (split_str s FENCE) = Inr y"
    using item1_split by blast
  with True show ?thesis by (simp add: strip_fence_def)
next
  case False
  then show ?thesis by (simp add: strip_fence_def)
qed

lemma separate_total: "\<exists>r g. separate U s = Inr (r, g)"
proof (cases "str_in SEP s")
  case True
  moreover have "SEP \<noteq> []" by (simp add: SEP_def ustr_def)
  ultimately obtain y where "item1 (split_str s SEP) = Inr y"
    using item1_split by blast
  with True show ?thesis by (simp add: separate_def item0_split Let_def)
next
  case False
  then show ?thesis by (simp add: separate_def Let_def)
qed

lemma candidate_total: "\<exists>r g. candidate U content = Inr (r, g)"
proof -
  obtain t where "strip_fence U (strip content) = Inr t" using strip_fence_total by blast
  then show ?thesis using separate_total[of U t] by (simp add: candidate_def)
qed


lemma hd_split_single:
  "hd (split_from [c] cur s) = rev cur @ takeWhile (\<lambda>x. x \<noteq> c) s"
  by (induction s arbitrary: cur) auto

lemma semicolon_fix_eq:
  "semicolon_fix g =
     Inr (if Latin1 CHR '';'' \<in> set g then takeWhile (\<lambda>x. x \<noteq> Latin1 CHR '';'') g @ ustr '';'' else g)"
proof -
  have "hd (split_str g (ustr '';'')) = takeWhile (\<lambda>x. x \<noteq> Latin1 CHR '';'') g"
    by (simp add: split_str_def hd_split_single ustr_def)
  then show ?thesis by (simp add: semicolon_fix_def item0_split str_in_single ustr_def)
qed

lemma extract_sql_eq:
  "candidate U content = Inr (r, g) \<Longrightarrow>
     extract_sql U content =
       Inr \<lparr>reasoning = r,
            sql = (if Latin1 CHR '';'' \<in> set (cleanup g)
                   then takeWhile (\<lambda>x. x \<noteq> Latin1 CHR '';'') (cleanup g) @ ustr '';'' else cleanup g)\<rparr>"
  by (simp add: extract_sql_def semicolon_fix_eq)

lemma extract_sql_total: "\<exists>r. extract_sql U content = Inr r"
proof -
  obtain r g where "candidate U content = Inr (r, g)" using candidate_total by blast
  then show ?thesis by (simp add: extract_sql_eq)
qed


lemma first_semicolon:
  assumes "Latin1 CHR '';'' \<in> set c"
  shows "\<exists>rest. c = (takeWhile (\<lambda>x. x \<noteq> Latin1 CHR '';'') c @ ustr '';'') @ rest"
proof -
  have "dropWhile (\<lambda>x. x \<noteq> Latin1 CHR '';'') c \<noteq> []" using assms by (simp add: dropWhile_eq_Nil_conv)
  moreover have "dropWhile (\<lambda>x. x \<noteq> Latin1 CHR '';'') c \<noteq> [] \<Longrightarrow> hd (dropWhile (\<lambda>x. x \<noteq> Latin1 CHR '';'') c) = Latin1 CHR '';''"
    using hd_dropWhile[of "\<lambda>x. x \<noteq> Latin1 CHR '';''" c] by blast
  ultimately obtain rest where "dropWhile (\<lambda>x. x \<noteq> Latin1 CHR '';'') c = Latin1 CHR '';'' # rest"
    by (cases "dropWhile (\<lambda>x. x \<noteq> Latin1 CHR '';'') c") auto
  then have "c = (takeWhile (\<lambda>x. x \<noteq> Latin1 CHR '';'') c @ ustr '';'') @ rest"
    using takeWhile_dropWhile_id[of "\<lambda>x. x \<noteq> Latin1 CHR '';''" c] by (simp add: ustr_def)
  then show ?thesis by blast
qed

lemma no_semicolon_before: "Latin1 CHR '';'' \<notin> set (takeWhile (\<lambda>x. x \<noteq> Latin1 CHR '';'') c)"
  by (auto dest: set_takeWhileD)

text \<open>
  C9. The extraction never raises: for every completion text the two indexings
  \<^verbatim>\<open>[1]\<close> find their element, and the result carries a reasoning and an SQL string. An
  unmatched fence, a text with neither separator nor SELECT, a text whose lines are all
  dropped and the empty text each give a result.
\<close>

theorem extract_sql_never_raises:
  "(\<exists>r g final. candidate U content = Inr (r, g) \<and> semicolon_fix (cleanup g) = Inr final \<and>
      extract_sql U content = Inr \<lparr>reasoning = r, sql = final\<rparr>) \<and>
   extract_sql U (ustr ''```SELECT 1'') = Inr \<lparr>reasoning = [], sql = (ustr ''SELECT 1'')\<rparr> \<and>
   extract_sql U (ustr ''I do not know.'') = Inr \<lparr>reasoning = [], sql = (ustr ''I do not know.'')\<rparr> \<and>
   extract_sql U (ustr ''Note: nothing to run'') = Inr \<lparr>reasoning = [], sql = []\<rparr> \<and>
   extract_sql U [] = Inr \<lparr>reasoning = [], sql = []\<rparr>"
proof (intro conjI)
  obtain r g where c: "candidate U content = Inr (r, g)" using candidate_total by blast
  obtain final where f: "semicolon_fix (cleanup g) = Inr final" by (simp add: semicolon_fix_eq)
  from c f have "extract_sql U content = Inr \<lparr>reasoning = r, sql = final\<rparr>"
    by (simp add: extract_sql_def)
  with c f show "\<exists>r g final. candidate U content = Inr (r, g) \<and> semicolon_fix (cleanup g) = Inr final \<and>
      extract_sql U content = Inr \<lparr>reasoning = r, sql = final\<rparr>"
    by blast
  show "extract_sql U (ustr ''```SELECT 1'') = Inr \<lparr>reasoning = [], sql = (ustr ''SELECT 1'')\<rparr>" by code_simp
  show "extract_sql U (ustr ''I do not know.'') = Inr \<lparr>reasoning = [], sql = (ustr ''I do not know.'')\<rparr>" by code_simp
  show "extract_sql U (ustr ''Note: nothing to run'') = Inr \<lparr>reasoning = [], sql = []\<rparr>" by code_simp
  show "extract_sql U [] = Inr \<lparr>reasoning = [], sql = []\<rparr>" by code_simp
qed

theorem extract_sql_never_raises_witness:
  "\<forall>U. \<exists>r. extract_sql U (ustr ''```'') = Inr r"
  using extract_sql_never_raises[of _ "ustr ''```''"] by blast

text \<open>
  C8. When the candidate after line-level cleanup contains a semicolon, the final SQL is
  that candidate cut after its first semicolon: it is a prefix of the candidate, ends
  with the semicolon and has none before. The candidate
  \<^verbatim>\<open>"SELECT a FROM b; SELECT c FROM d;"\<close> gives \<^verbatim>\<open>"SELECT a FROM b;"\<close>.
\<close>

theorem semicolon_fix_first_statement:
  "(Latin1 CHR '';'' \<in> set g \<longrightarrow>
      semicolon_fix g = Inr (takeWhile (\<lambda>x. x \<noteq> Latin1 CHR '';'') g @ ustr '';'')) \<and>
   (candidate U content = Inr (r, g) \<and> Latin1 CHR '';'' \<in> set (cleanup g) \<longrightarrow>
      (\<exists>res rest. extract_sql U content = Inr res \<and>
         sql res = takeWhile (\<lambda>x. x \<noteq> Latin1 CHR '';'') (cleanup g) @ ustr '';'' \<and>
         cleanup g = sql res @ rest \<and> Latin1 CHR '';'' \<notin> set (butlast (sql res)))) \<and>
   cleanup (ustr ''SELECT a FROM b; SELECT c FROM d;'') = (ustr ''SELECT a FROM b; SELECT c FROM d;'') \<and>
   semicolon_fix (ustr ''SELECT a FROM b; SELECT c FROM d;'') = Inr (ustr ''SELECT a FROM b;'') \<and>
   extract_sql U (ustr ''SELECT a FROM b; SELECT c FROM d;'') =
     Inr \<lparr>reasoning = [], sql = (ustr ''SELECT a FROM b;'')\<rparr>"
proof (intro conjI impI)
  assume "Latin1 CHR '';'' \<in> set g"
  then show "semicolon_fix g = Inr (takeWhile (\<lambda>x. x \<noteq> Latin1 CHR '';'') g @ ustr '';'')"
    by (simp add: semicolon_fix_eq)
next
  assume a: "candidate U content = Inr (r, g) \<and> Latin1 CHR '';'' \<in> set (cleanup g)"
  let ?s = "takeWhile (\<lambda>x. x \<noteq> Latin1 CHR '';'') (cleanup g) @ ustr '';''"
  from a have e: "extract_sql U content = Inr \<lparr>reasoning = r, sql = ?s\<rparr>"
    by (simp add: extract_sql_eq)
  from a obtain rest where d: "cleanup g = ?s @ rest" using first_semicolon by blast
  have "Latin1 CHR '';'' \<notin> set (butlast ?s)" using no_semicolon_before[of "cleanup g"] by (simp add: ustr_def)
  with e d have "extract_sql U content = Inr \<lparr>reasoning = r, sql = ?s\<rparr> \<and>
      sql \<lparr>reasoning = r, sql = ?s\<rparr> = ?s \<and> cleanup g = sql \<lparr>reasoning = r, sql = ?s\<rparr> @ rest \<and>
      Latin1 CHR '';'' \<notin> set (butlast (sql \<lparr>reasoning = r, sql = ?s\<rparr>))"
    by simp
  then show "\<exists>res rest. extract_sql U content = Inr res \<and>
         sql res = takeWhile (\<lambda>x. x \<noteq> Latin1 CHR '';'') (cleanup g) @ ustr '';'' \<and>
         cleanup g = sql res @ rest \<and> Latin1 CHR '';'' \<notin> set (butlast (sql res))"
    by blast
next
  show "cleanup (ustr ''SELECT a FROM b; SELECT c FROM d;'') = (ustr ''SELECT a FROM b; SELECT c FROM d;'')"
    by code_simp
  show "semicolon_fix (ustr ''SELECT a FROM b; SELECT c FROM d;'') = Inr (ustr ''SELECT a FROM b;'')"
    by code_simp
  show "extract_sql U (ustr ''SELECT a FROM b; SELECT c FROM d;'') =
     Inr \<lparr>reasoning = [], sql = (ustr ''SELECT a FROM b;'')\<rparr>"
    by code_simp
qed

theorem semicolon_fix_first_statement_witness:
  "\<forall>U. candidate U (ustr ''SELECT 1; SELECT 2; SELECT 3'') =
         Inr ([], ustr ''SELECT 1; SELECT 2; SELECT 3'') \<and>
       Latin1 CHR '';'' \<in> set (cleanup (ustr ''SELECT 1; SELECT 2; SELECT 3'')) \<and>
       (\<exists>res rest. extract_sql U (ustr ''SELECT 1; SELECT 2; SELECT 3'') = Inr res \<and>
          sql res = ustr ''SELECT 1;'' \<and>
          cleanup (ustr ''SELECT 1; SELECT 2; SELECT 3'') = sql res @ rest)"
proof
  fix U
  let ?c = "ustr ''SELECT 1; SELECT 2; SELECT 3''"
  have c: "candidate U ?c = Inr ([], ?c)" by code_simp
  have k: "cleanup ?c = ?c" by code_simp
  have m: "Latin1 CHR '';'' \<in> set (cleanup ?c)" unfolding k by (simp add: ustr_def)
  have t: "takeWhile (\<lambda>x. x \<noteq> Latin1 CHR '';'') (cleanup ?c) @ ustr '';'' = ustr ''SELECT 1;''"
    unfolding k by (simp add: ustr_def)
  from semicolon_fix_first_statement[where g = ?c and content = ?c and r = "[]" and U = U] c m
  have "\<exists>res rest. extract_sql U ?c = Inr res \<and>
         sql res = takeWhile (\<lambda>x. x \<noteq> Latin1 CHR '';'') (cleanup ?c) @ ustr '';'' \<and>
         cleanup ?c = sql res @ rest \<and> Latin1 CHR '';'' \<notin> set (butlast (sql res))"
    by blast
  then have "\<exists>res rest. extract_sql U ?c = Inr res \<and> sql res = ustr ''SELECT 1;'' \<and>
      cleanup ?c = sql res @ rest"
    unfolding t by blast
  with c m show "candidate U ?c = Inr ([], ?c) \<and>
       Latin1 CHR '';'' \<in> set (cleanup ?c) \<and>
       (\<exists>res rest. extract_sql U ?c = Inr res \<and> sql res = ustr ''SELECT 1;'' \<and>
          cleanup ?c = sql res @ rest)"
    by blast
qed

lemma not_prefix_before_first:
  assumes "sep \<noteq> []" "a \<noteq> []" "\<not> sublist sep (a @ butlast sep)"
  shows "\<not> prefix sep (a @ sep @ b)"
proof
  assume p: "prefix sep (a @ sep @ b)"
  have "a @ sep @ b = (a @ butlast sep) @ (last sep # b)"
    using assms(1) by (simp add: append_butlast_last_id[symmetric] del: append_butlast_last_id)
  with p have "prefix sep ((a @ butlast sep) @ (last sep # b))" by simp
  then consider "prefix sep (a @ butlast sep)"
    | us where "sep = (a @ butlast sep) @ us"
    unfolding prefix_append by blast
  then have "prefix sep (a @ butlast sep)"
  proof cases
    case 1
    then show ?thesis .
  next
    case 2
    then have "length sep = length a + (length sep - 1) + length us"
      by (metis length_append length_butlast)
    with assms(1,2) have "us = []" by (cases a; cases sep) auto
    with 2 show ?thesis by simp
  qed
  with assms(3) show False by (simp add: prefix_imp_sublist)
qed

lemma split_from_first:
  assumes "sep \<noteq> []"
  shows "\<not> sublist sep (a @ butlast sep) \<Longrightarrow>
     split_from sep cur (a @ sep @ b) = (rev cur @ a) # split_from sep [] b"
proof (induction a arbitrary: cur)
  case Nil
  from assms obtain c cs where s: "sep = c # cs" by (cases sep) auto
  have "split_from sep cur (c # (cs @ b)) = rev cur # split_from sep [] (drop (length sep) (c # (cs @ b)))"
    using s by simp
  then show ?case using s by simp
next
  case (Cons x a)
  have np: "\<not> prefix sep ((x # a) @ sep @ b)"
    using Cons.prems assms by (intro not_prefix_before_first) simp_all
  have "\<not> sublist sep (a @ butlast sep)"
    using Cons.prems by (simp add: sublist_Cons_right)
  then have "split_from sep (x # cur) (a @ sep @ b) = (rev (x # cur) @ a) # split_from sep [] b"
    by (rule Cons.IH)
  with np show ?case by simp
qed

lemma split_from_none:
  "\<not> sublist sep s \<Longrightarrow> split_from sep cur s = [rev cur @ s]"
proof (induction s arbitrary: cur)
  case Nil
  then show ?case by simp
next
  case (Cons c cs)
  then have "\<not> prefix sep (c # cs)" "\<not> sublist sep cs"
    by (auto simp: sublist_Cons_right)
  with Cons.IH[of "c # cur"] show ?case by simp
qed

lemma separate_at_first:
  assumes "t = a @ SEP @ b" "\<not> sublist SEP (a @ butlast SEP)"
  shows "\<exists>g. separate U t = Inr (strip a, g) \<and> (\<not> sublist SEP b \<longrightarrow> g = strip b)"
proof -
  have ne: "SEP \<noteq> []" by (simp add: SEP_def ustr_def)
  have in_t: "str_in SEP t" unfolding str_in_sublist assms(1) by (rule sublist_appendI)
  have parts: "split_str t SEP = a # split_from SEP [] b"
    unfolding split_str_def assms(1) using split_from_first[OF ne assms(2), of "[]" b] by simp
  obtain y rest where y: "split_from SEP [] b = y # rest"
    using split_from_not_Nil[of SEP "[]" b] by (cases "split_from SEP [] b") auto
  have "separate U t = Inr (strip a, strip y)"
    using in_t parts y by (simp add: separate_def Let_def item0_def item1_def)
  moreover have "y = b" if "\<not> sublist SEP b"
    using split_from_none[OF that, of "[]"] y by simp
  ultimately show ?thesis by blast
qed

lemma strip_fence_plain:
  "\<not> startswith s FENCE \<Longrightarrow> \<not> startswith (lower U s) (ustr ''sql'') \<Longrightarrow> strip_fence U s = Inr s"
  by (simp add: strip_fence_def)

text \<open>
  C7, as stated: whenever the raw completion contains the separator, the reasoning is
  the trimmed text before it and the candidate is everything after it. The fence is
  stripped first: in \<^verbatim>\<open>"```a```### SQL START ### SELECT 1"\<close> the separator lies behind the
  closing fence and is dropped with it, so the reasoning is empty and the candidate is
  \<^verbatim>\<open>a\<close>. And \<^verbatim>\<open>parts[1]\<close> ends at the next separator: with two separators the candidate
  is the text between them.
\<close>

theorem separator_split_counterexample:
  "\<forall>U. ustr ''```a```### SQL START ### SELECT 1'' = ustr ''```a```'' @ SEP @ ustr '' SELECT 1'' \<and>
       candidate U (ustr ''```a```### SQL START ### SELECT 1'') = Inr ([], ustr ''a'') \<and>
       ustr ''r ### SQL START ### SELECT 1 ### SQL START ### SELECT 2'' =
         ustr ''r '' @ SEP @ ustr '' SELECT 1 ### SQL START ### SELECT 2'' \<and>
       candidate U (ustr ''r ### SQL START ### SELECT 1 ### SQL START ### SELECT 2'') =
         Inr (ustr ''r'', ustr ''SELECT 1'')"
proof (intro allI conjI)
  fix U
  show "ustr ''```a```### SQL START ### SELECT 1'' = ustr ''```a```'' @ SEP @ ustr '' SELECT 1''"
    by (simp add: SEP_def ustr_def)
  show "candidate U (ustr ''```a```### SQL START ### SELECT 1'') = Inr ([], ustr ''a'')"
    by code_simp
  show "ustr ''r ### SQL START ### SELECT 1 ### SQL START ### SELECT 2'' =
     ustr ''r '' @ SEP @ ustr '' SELECT 1 ### SQL START ### SELECT 2''"
    by (simp add: SEP_def ustr_def)
  show "candidate U (ustr ''r ### SQL START ### SELECT 1 ### SQL START ### SELECT 2'') =
     Inr (ustr ''r'', ustr ''SELECT 1'')"
    by code_simp
qed

text \<open>
  C7, amended: when the text left by the fence and language-tag step contains the
  separator, the reasoning is the trimmed text before its first occurrence; when the
  separator does not occur again after that occurrence, the candidate is the trimmed
  text after it. A completion that starts with neither a fence nor the tag passes that
  step unchanged (trimmed of every whitespace character, the no-break space among
  them). The example of the specification gives the reasoning \<^verbatim>\<open>reasoning text\<close> and
  the SQL \<^verbatim>\<open>SELECT * FROM t;\<close>; a fenced completion behind a no-break space is read
  as a fenced one.
\<close>

theorem separator_split:
  "(strip_fence U (strip content) = Inr t \<and> t = a @ SEP @ b \<and> \<not> sublist SEP (a @ butlast SEP) \<longrightarrow>
      (\<exists>g. candidate U content = Inr (strip a, g) \<and> (\<not> sublist SEP b \<longrightarrow> g = strip b))) \<and>
   (\<not> startswith (strip content) FENCE \<and> \<not> startswith (lower U (strip content)) (ustr ''sql'') \<longrightarrow>
      strip_fence U (strip content) = Inr (strip content)) \<and>
   candidate U (ustr ''reasoning text ### SQL START ### SELECT * FROM t;\<newline>Note: done'') =
     Inr ((ustr ''reasoning text''), (ustr ''SELECT * FROM t;\<newline>Note: done'')) \<and>
   extract_sql U (ustr ''reasoning text ### SQL START ### SELECT * FROM t;\<newline>Note: done'') =
     Inr \<lparr>reasoning = (ustr ''reasoning text''), sql = (ustr ''SELECT * FROM t;'')\<rparr> \<and>
   candidate U (cp 0xA0 # ustr ''```a```### SQL START ### SELECT 1'') = Inr ([], ustr ''a'')"
proof (intro conjI impI)
  assume a: "strip_fence U (strip content) = Inr t \<and> t = a @ SEP @ b \<and> \<not> sublist SEP (a @ butlast SEP)"
  then have "\<exists>g. separate U t = Inr (strip a, g) \<and> (\<not> sublist SEP b \<longrightarrow> g = strip b)"
    by (intro separate_at_first) simp_all
  with a show "\<exists>g. candidate U content = Inr (strip a, g) \<and> (\<not> sublist SEP b \<longrightarrow> g = strip b)"
    by (simp add: candidate_def)
next
  assume "\<not> startswith (strip content) FENCE \<and> \<not> startswith (lower U (strip content)) (ustr ''sql'')"
  then show "strip_fence U (strip content) = Inr (strip content)" by (simp add: strip_fence_plain)
next
  show "candidate U (ustr ''reasoning text ### SQL START ### SELECT * FROM t;\<newline>Note: done'') =
     Inr ((ustr ''reasoning text''), (ustr ''SELECT * FROM t;\<newline>Note: done''))"
    by code_simp
  show "extract_sql U (ustr ''reasoning text ### SQL START ### SELECT * FROM t;\<newline>Note: done'') =
     Inr \<lparr>reasoning = (ustr ''reasoning text''), sql = (ustr ''SELECT * FROM t;'')\<rparr>"
    by code_simp
  show "candidate U (cp 0xA0 # ustr ''```a```### SQL START ### SELECT 1'') = Inr ([], ustr ''a'')"
    by code_simp
qed

theorem separator_split_witness:
  "\<forall>U. strip_fence U (strip (ustr ''ok ### SQL START ### SELECT 1'')) =
         Inr (ustr ''ok ### SQL START ### SELECT 1'') \<and>
       ustr ''ok ### SQL START ### SELECT 1'' = ustr ''ok '' @ SEP @ ustr '' SELECT 1'' \<and>
       \<not> sublist SEP (ustr ''ok '' @ butlast SEP) \<and> \<not> sublist SEP (ustr '' SELECT 1'') \<and>
       \<not> startswith (strip (ustr ''ok ### SQL START ### SELECT 1'')) FENCE \<and>
       \<not> startswith (lower U (strip (ustr ''ok ### SQL START ### SELECT 1''))) (ustr ''sql'') \<and>
       candidate U (ustr ''ok ### SQL START ### SELECT 1'') =
         Inr (strip (ustr ''ok ''), strip (ustr '' SELECT 1''))"
proof
  fix U
  let ?c = "ustr ''ok ### SQL START ### SELECT 1''"
  have f: "strip_fence U (strip ?c) = Inr ?c" by code_simp
  have d: "?c = ustr ''ok '' @ SEP @ ustr '' SELECT 1''" by (simp add: SEP_def ustr_def)
  have n1: "\<not> sublist SEP (ustr ''ok '' @ butlast SEP)" by code_simp
  have n2: "\<not> sublist SEP (ustr '' SELECT 1'')" by code_simp
  have n3: "\<not> startswith (strip ?c) FENCE" by code_simp
  have n4: "\<not> startswith (lower U (strip ?c)) (ustr ''sql'')" by code_simp
  from separator_split[where content = ?c and t = ?c and a = "ustr ''ok ''"
      and b = "ustr '' SELECT 1''" and U = U] f d n1 n2
  have "candidate U ?c = Inr (strip (ustr ''ok ''), strip (ustr '' SELECT 1''))" by blast
  with f d n1 n2 n3 n4 show "strip_fence U (strip ?c) = Inr ?c \<and>
       ?c = ustr ''ok '' @ SEP @ ustr '' SELECT 1'' \<and>
       \<not> sublist SEP (ustr ''ok '' @ butlast SEP) \<and> \<not> sublist SEP (ustr '' SELECT 1'') \<and>
       \<not> startswith (strip ?c) FENCE \<and>
       \<not> startswith (lower U (strip ?c)) (ustr ''sql'') \<and>
       candidate U ?c = Inr (strip (ustr ''ok ''), strip (ustr '' SELECT 1''))"
    by blast
qed

section \<open>The extractor followed by the validator\<close>

lemma sublist_trans: "sublist a b \<Longrightarrow> sublist b c \<Longrightarrow> sublist a c"
  by (rule sublist_order.order_trans)

lemma split_from_sublist:
  "x \<in> set (split_from sep cur s) \<Longrightarrow> sublist x (rev cur @ s)"
proof (induction sep cur s rule: split_from.induct)
  case (1 sep cur)
  then show ?case by simp
next
  case (2 sep cur c cs)
  show ?case
  proof (cases "sep \<noteq> [] \<and> prefix sep (c # cs)")
    case True
    with "2.prems" consider "x = rev cur" | "x \<in> set (split_from sep [] (drop (length sep) (c # cs)))"
      by auto
    then show ?thesis
    proof cases
      case 1
      then show ?thesis by simp
    next
      case 2
      with "2.IH"(1) True have "sublist x (drop (length sep) (c # cs))" by simp
      also have "sublist (drop (length sep) (c # cs)) (c # cs)" by (rule sublist_drop)
      also have "sublist (c # cs) (rev cur @ c # cs)" by (rule sublist_append_leftI)
      finally show ?thesis .
    qed
  next
    case False
    with "2.prems" have "x \<in> set (split_from sep (c # cur) cs)" by auto
    with "2.IH"(2) False have "sublist x (rev (c # cur) @ cs)" by blast
    then show ?thesis by simp
  qed
qed

lemma split_str_sublist: "x \<in> set (split_str s sep) \<Longrightarrow> sublist x s"
  using split_from_sublist[of x sep "[]" s] by (simp add: split_str_def)

lemma strip_sublist: "sublist (strip s) s"
proof -
  let ?d = "dropWhile is_space s"
  have "sublist (dropWhile is_space (rev ?d)) (rev ?d)" by (rule sublist_dropWhile)
  then have "sublist (rev (dropWhile is_space (rev ?d))) ?d"
    by (simp add: sublist_rev_left)
  also have "sublist ?d s" by (rule sublist_dropWhile)
  finally show ?thesis by (simp add: strip_def)
qed

lemma item1_mem: "item1 xs = Inr y \<Longrightarrow> y \<in> set xs"
  by (auto simp: item1_def split: list.splits)

lemma strip_fence_sublist:
  assumes "strip_fence U s = Inr g"
  shows "sublist g s"
proof -
  obtain g1 where g1: "(if startswith s FENCE
            then (case item1 (split_str s FENCE) of
                    Inl e \<Rightarrow> Inl e | Inr part \<Rightarrow> Inr (strip part))
            else Inr s) = Inr g1"
      and g: "g = (if startswith (lower U g1) (ustr ''sql'') then strip (slice_from g1 3) else g1)"
    using assms by (auto simp: strip_fence_def split: sum.splits)
  have s1: "sublist g1 s"
  proof (cases "startswith s FENCE")
    case False
    with g1 show ?thesis by simp
  next
    case True
    with g1 obtain part where p: "item1 (split_str s FENCE) = Inr part" "g1 = strip part"
      by (auto split: sum.splits)
    have "sublist (strip part) part" by (rule strip_sublist)
    also have "sublist part s" using p(1) by (intro split_str_sublist item1_mem)
    finally show ?thesis using p(2) by simp
  qed
  have "sublist g g1"
  proof (cases "startswith (lower U g1) (ustr ''sql'')")
    case False
    with g show ?thesis by simp
  next
    case True
    have "sublist (strip (drop 3 g1)) (drop 3 g1)" by (rule strip_sublist)
    also have "sublist (drop 3 g1) g1" by (rule sublist_drop)
    finally show ?thesis using g True by (simp add: slice_from_def)
  qed
  then show ?thesis using s1 by (rule sublist_trans)
qed

lemma upper_mono: "sublist x s \<Longrightarrow> sublist (upper U x) (upper U s)"
proof -
  assume "sublist x s"
  then obtain a b where "s = a @ x @ b" unfolding sublist_def by blast
  then have "upper U s = upper U a @ upper U x @ upper U b" by (simp add: upper_append)
  then show ?thesis unfolding sublist_def by blast
qed

lemma upper_sublist: "sublist x s \<Longrightarrow> sublist w (upper U x) \<Longrightarrow> sublist w (upper U s)"
  using upper_mono sublist_trans by blast

lemma sublist_across:
  assumes "c \<notin> set w" "sublist w (a @ c # b)"
  shows "sublist w a \<or> sublist w b"
proof -
  from assms(2) consider "sublist w a" | "sublist w (c # b)"
    | w1 w2 where "w = w1 @ w2" "suffix w1 a" "prefix w2 (c # b)"
    unfolding sublist_append by blast
  then show ?thesis
  proof cases
    case 1
    then show ?thesis by blast
  next
    case 2
    then consider "prefix w (c # b)" | "sublist w b" unfolding sublist_Cons_right by blast
    then show ?thesis
    proof cases
      case 1
      with assms(1) have "w = []" by (cases w) auto
      then show ?thesis by simp
    next
      case 2
      then show ?thesis by blast
    qed
  next
    case 3
    from 3(1,3) assms(1) have "w2 = []" by (cases w2) auto
    with 3(1,2) have "suffix w a" by simp
    then show ?thesis by (simp add: suffix_imp_sublist)
  qed
qed

lemma sublist_join:
  assumes "c \<notin> set w" "w \<noteq> []"
  shows "sublist w (join_str [c] ls) \<Longrightarrow> \<exists>l\<in>set ls. sublist w l"
proof (induction "[c]" ls rule: join_str.induct)
  case 1
  with assms(2) show ?case by simp
next
  case (2 x)
  then show ?case by simp
next
  case (3 x y ys)
  from "3.prems" have "sublist w (x @ c # join_str [c] (y # ys))" by simp
  with assms(1) have "sublist w x \<or> sublist w (join_str [c] (y # ys))" by (rule sublist_across)
  with "3.hyps" show ?case by auto
qed

lemma up_NL: "up U NL = [NL]"
  by code_simp

lemma up_semicolon: "up U (Latin1 CHR '';'') = [Latin1 CHR '';'']"
  by code_simp

lemma upper_join: "upper U (join_str [NL] ls) = join_str [NL] (map (upper U) ls)"
  by (induction "[NL]" ls rule: join_str.induct) (simp_all add: upper_def up_NL)

lemma clean_lines_subset: "set (clean_lines ls) \<subseteq> set ls"
  by (induction ls) auto

lemma SELECT_chars:
  "NL \<notin> set (ustr ''SELECT'')" "Latin1 CHR '';'' \<notin> set (ustr ''SELECT'')" "ustr ''SELECT'' \<noteq> []"
  by (simp_all add: NL_def ustr_def)

lemma cleanup_no_select:
  assumes "\<not> sublist (ustr ''SELECT'') (upper U g)"
  shows "\<not> sublist (ustr ''SELECT'') (upper U (cleanup g))"
proof
  let ?ls = "clean_lines (split_str g [NL])"
  assume "sublist (ustr ''SELECT'') (upper U (cleanup g))"
  then have "sublist (ustr ''SELECT'') (upper U (join_str [NL] ?ls))"
    unfolding cleanup_def by (rule upper_sublist[OF strip_sublist])
  then have "sublist (ustr ''SELECT'') (join_str [NL] (map (upper U) ?ls))"
    by (simp only: upper_join)
  then obtain u where u: "u \<in> set (map (upper U) ?ls)" "sublist (ustr ''SELECT'') u"
    using sublist_join[OF SELECT_chars(1,3)] by blast
  then obtain l where l: "l \<in> set ?ls" "u = upper U l" by auto
  then have "l \<in> set (split_str g [NL])" using clean_lines_subset by blast
  then have "sublist l g" by (rule split_str_sublist)
  then have "sublist (ustr ''SELECT'') (upper U g)"
    using u(2) l(2) by (intro upper_sublist[of l g]) simp_all
  with assms show False by simp
qed

lemma semicolon_no_select:
  assumes "\<not> sublist (ustr ''SELECT'') (upper U c)"
  shows "\<not> sublist (ustr ''SELECT'') (upper U (takeWhile P c @ ustr '';''))"
proof
  assume "sublist (ustr ''SELECT'') (upper U (takeWhile P c @ ustr '';''))"
  then have "sublist (ustr ''SELECT'') (upper U (takeWhile P c) @ Latin1 CHR '';'' # [])"
    by (simp add: upper_append) (simp add: upper_def ustr_def up_semicolon)
  then have "sublist (ustr ''SELECT'') (upper U (takeWhile P c)) \<or> sublist (ustr ''SELECT'') []"
    by (rule sublist_across[OF SELECT_chars(2)])
  then have "sublist (ustr ''SELECT'') (upper U (takeWhile P c))"
    using SELECT_chars(3) by simp
  then have "sublist (ustr ''SELECT'') (upper U c)"
    by (rule upper_sublist[OF sublist_takeWhile])
  with assms show False by simp
qed

lemma select_letter_table:
  "list_all (\<lambda>p. \<forall>ch. ci_eq p (Latin1 ch) \<longrightarrow> up U (Latin1 ch) = [Latin1 p]) ''SELECT''"
  by code_simp

lemma select_long_s_table:
  "list_all (\<lambda>p. ascii_lower p = CHR ''s'' \<longrightarrow> p = CHR ''S'') ''SELECT''"
  by code_simp

lemma up_LONG_S: "up U LONG_S = [Latin1 CHR ''S'']"
  by code_simp

lemma select_letter_up:
  assumes "p \<in> set ''SELECT''" "ci_eq p c"
  shows "up U c = [Latin1 p]"
proof (cases c)
  case (Latin1 ch)
  with assms select_letter_table[of U] show ?thesis unfolding list_all_iff by blast
next
  case (Above n)
  with assms(2) have "c = LONG_S" "ascii_lower p = CHR ''s''" by (auto simp: ci_eq_def)
  with assms(1) select_long_s_table have "p = CHR ''S''" unfolding list_all_iff by blast
  with \<open>c = LONG_S\<close> show ?thesis by (simp add: up_LONG_S)
qed

lemma any_case_upper:
  "set p \<subseteq> set ''SELECT'' \<Longrightarrow> any_case p w \<Longrightarrow> upper U w = ustr p"
proof (induction p arbitrary: w)
  case Nil
  then show ?case by (simp add: any_case_def upper_def ustr_def)
next
  case (Cons x p)
  from Cons.prems(2) obtain c w' where w: "w = c # w'" "ci_eq x c" "any_case p w'"
    by (cases w) (auto simp: any_case_def)
  from Cons.prems(1) have "x \<in> set ''SELECT''" "set p \<subseteq> set ''SELECT''" by auto
  with w Cons.IH[of w'] select_letter_up[of x c U] show ?case
    by (simp add: upper_def ustr_def)
qed

lemma select_word: "any_case ''SELECT'' w \<Longrightarrow> upper U w = ustr ''SELECT''"
  by (rule any_case_upper) simp_all

lemma begins_with_select_sublist:
  assumes "begins_with_select t"
  shows "sublist (ustr ''SELECT'') (upper U t)"
proof -
  from assms obtain ws w rest where d: "t = ws @ w @ rest" "any_case ''SELECT'' w"
    unfolding begins_with_select_def by blast
  have "upper U t = upper U ws @ upper U w @ upper U rest" using d(1) by (simp add: upper_append)
  then have "upper U t = upper U ws @ ustr ''SELECT'' @ upper U rest"
    by (simp only: select_word[OF d(2)])
  then show ?thesis unfolding sublist_def by blast
qed

lemma no_select_invalid:
  assumes "\<not> sublist (ustr ''SELECT'') (upper U v)"
  shows "\<not> fst (validate_sql U v)" "\<not> ci_prefix ''SELECT'' v"
proof -
  show "\<not> fst (validate_sql U v)"
  proof
    assume "fst (validate_sql U v)"
    then have "re_match_select (strip v)" by (simp add: validate_sql_valid_iff)
    then have "sublist (ustr ''SELECT'') (upper U (strip v))"
      unfolding re_match_select_iff by (rule begins_with_select_sublist)
    then have "sublist (ustr ''SELECT'') (upper U v)" by (rule upper_sublist[OF strip_sublist])
    with assms show False by simp
  qed
  show "\<not> ci_prefix ''SELECT'' v"
  proof
    assume "ci_prefix ''SELECT'' v"
    then obtain w rest where "v = w @ rest" "any_case ''SELECT'' w"
      unfolding ci_prefix_iff by blast
    then have "v = [] @ w @ rest \<and> (\<forall>c\<in>set []. is_space c) \<and> any_case ''SELECT'' w" by simp
    then have "begins_with_select v" unfolding begins_with_select_def by blast
    with assms show False using begins_with_select_sublist by blast
  qed
qed

lemma candidate_plain:
  assumes "\<not> sublist SEP raw" "\<not> sublist (ustr ''SELECT'') (upper U raw)"
  shows "\<exists>t. candidate U raw = Inr ([], t) \<and> \<not> sublist (ustr ''SELECT'') (upper U t)"
proof -
  obtain t where t: "strip_fence U (strip raw) = Inr t" using strip_fence_total by blast
  then have "sublist t (strip raw)" by (rule strip_fence_sublist)
  then have sub: "sublist t raw" using strip_sublist[of raw] by (rule sublist_trans)
  have ns: "\<not> sublist (ustr ''SELECT'') (upper U t)" using assms(2) upper_sublist[OF sub] by blast
  have "\<not> sublist SEP t" using assms(1) sub sublist_trans by blast
  with ns have "separate U t = Inr ([], t)" by (simp add: separate_def str_in_sublist)
  with t ns show ?thesis by (simp add: candidate_def)
qed

text \<open>
  C5. For a completion that contains neither the separator nor SELECT in any letter
  case (the test the extractor makes: SELECT occurs nowhere in the text put in capitals
  by \<^verbatim>\<open>str.upper()\<close>), the extractor returns an SQL string that is empty or does not
  start with SELECT (it contains SELECT nowhere, in any letter case), the validator
  rejects that string, and \<^verbatim>\<open>run_query\<close> on it returns no result and leaves the session,
  its log and the engine trace, as it was.
\<close>

theorem no_select_round_trip:
  "\<not> sublist SEP raw \<and> \<not> sublist (ustr ''SELECT'') (upper U raw) \<longrightarrow>
     (\<exists>res. extract_sql U raw = Inr res \<and>
        (sql res = [] \<or> \<not> ci_prefix ''SELECT'' (sql res)) \<and>
        \<not> sublist (ustr ''SELECT'') (upper U (sql res)) \<and>
        \<not> fst (validate_sql U (sql res)) \<and>
        fst (fst (run_query U env (sql res) st)) = None \<and>
        snd (run_query U env (sql res) st) = st)"
proof
  assume a: "\<not> sublist SEP raw \<and> \<not> sublist (ustr ''SELECT'') (upper U raw)"
  then obtain t where t: "candidate U raw = Inr ([], t)" "\<not> sublist (ustr ''SELECT'') (upper U t)"
    using candidate_plain by blast
  define final where "final = (if Latin1 CHR '';'' \<in> set (cleanup t)
      then takeWhile (\<lambda>x. x \<noteq> Latin1 CHR '';'') (cleanup t) @ ustr '';'' else cleanup t)"
  have e: "extract_sql U raw = Inr \<lparr>reasoning = [], sql = final\<rparr>"
    unfolding final_def by (rule extract_sql_eq[OF t(1)])
  have c: "\<not> sublist (ustr ''SELECT'') (upper U (cleanup t))" by (rule cleanup_no_select[OF t(2)])
  have ns: "\<not> sublist (ustr ''SELECT'') (upper U final)"
    unfolding final_def using c semicolon_no_select[OF c] by simp
  have inv: "\<not> fst (validate_sql U final)" and np: "\<not> ci_prefix ''SELECT'' final"
    using no_select_invalid[OF ns] by blast+
  obtain msg where "validate_sql U final = (False, msg)"
    using inv by (cases "validate_sql U final") auto
  then have rq: "run_query U env final st = ((None, Some (ustr ''Validation Error: '' @ msg)), st)"
    by (rule run_query_invalid)
  let ?res = "\<lparr>reasoning = [], sql = final\<rparr>"
  have "extract_sql U raw = Inr ?res \<and>
        (sql ?res = [] \<or> \<not> ci_prefix ''SELECT'' (sql ?res)) \<and>
        \<not> sublist (ustr ''SELECT'') (upper U (sql ?res)) \<and>
        \<not> fst (validate_sql U (sql ?res)) \<and>
        fst (fst (run_query U env (sql ?res) st)) = None \<and>
        snd (run_query U env (sql ?res) st) = st"
    using e ns inv np rq by simp
  then show "\<exists>res. extract_sql U raw = Inr res \<and>
        (sql res = [] \<or> \<not> ci_prefix ''SELECT'' (sql res)) \<and>
        \<not> sublist (ustr ''SELECT'') (upper U (sql res)) \<and>
        \<not> fst (validate_sql U (sql res)) \<and>
        fst (fst (run_query U env (sql res) st)) = None \<and>
        snd (run_query U env (sql res) st) = st"
    by blast
qed

theorem no_select_round_trip_witness:
  "\<forall>U. \<not> sublist SEP (ustr ''```sql\<newline>CANNOT_ANSWER\<newline>```'') \<and>
       \<not> sublist (ustr ''SELECT'') (upper U (ustr ''```sql\<newline>CANNOT_ANSWER\<newline>```'')) \<and>
       extract_sql U (ustr ''```sql\<newline>CANNOT_ANSWER\<newline>```'') =
         Inr \<lparr>reasoning = [], sql = ustr ''CANNOT_ANSWER''\<rparr> \<and>
       (\<exists>res. extract_sql U (ustr ''```sql\<newline>CANNOT_ANSWER\<newline>```'') = Inr res \<and>
          \<not> fst (validate_sql U (sql res)))"
proof
  fix U
  let ?c = "ustr ''```sql\<newline>CANNOT_ANSWER\<newline>```''"
  have n1: "\<not> sublist SEP ?c" by code_simp
  have n2: "\<not> sublist (ustr ''SELECT'') (upper U ?c)" by code_simp
  have e: "extract_sql U ?c = Inr \<lparr>reasoning = [], sql = ustr ''CANNOT_ANSWER''\<rparr>" by code_simp
  from no_select_round_trip[of ?c U "\<lparr>execute = (\<lambda>q. Inr (0::nat)), elapsed = []\<rparr>"
      "\<lparr>logs = [], sent = []\<rparr>"] n1 n2
  have "\<exists>res. extract_sql U ?c = Inr res \<and> \<not> fst (validate_sql U (sql res))" by blast
  with n1 n2 e show "\<not> sublist SEP ?c \<and>
       \<not> sublist (ustr ''SELECT'') (upper U ?c) \<and>
       extract_sql U ?c = Inr \<lparr>reasoning = [], sql = ustr ''CANNOT_ANSWER''\<rparr> \<and>
       (\<exists>res. extract_sql U ?c = Inr res \<and> \<not> fst (validate_sql U (sql res)))"
    by blast
qed

end
